theory Spec2Isabelle
  imports Main "HOL-Library.Word"
begin

section \<open>Data model of \<open>detect-ignore-regions.ts\<close>\<close>

text \<open>
  The region extractor of \<open>src/detect-ignore-regions.ts\<close>: \<open>analyzeDiffImage\<close> scans a
  decoded PNG for diff-coloured pixels and hands their coordinates to
  \<open>findBoundingRectangles\<close>, which returns at most five rectangles.

  Coordinates are JavaScript numbers that only ever hold integers here (loop counters
  and sums, differences, minima and maxima of them), so they are \<open>int\<close>; lengths and
  counts are \<open>nat\<close>.
\<close>

record pixel =
  px :: int
  py :: int

record DiffRegion =
  rx :: int
  ry :: int
  rwidth :: int
  rheight :: int

text \<open>
  The decoded image as \<open>pngjs\<close> delivers it: width, height and a byte buffer holding
  R, G, B, A for each pixel in row-major order.
\<close>

record png =
  png_width :: nat
  png_height :: nat
  png_data :: "8 word list"

section \<open>Scanning for diff pixels (\<open>analyzeDiffImage\<close>, lines 199--220)\<close>

text \<open>
  \<open>png.data[i]\<close>: a read outside the buffer yields \<open>undefined\<close>, modelled as \<open>None\<close>.
\<close>

definition data_at :: "8 word list \<Rightarrow> int \<Rightarrow> nat option" where
  "data_at d i = (if 0 \<le> i \<and> i < int (length d) then Some (unat (d ! nat i)) else None)"

text \<open>
  A comparison with \<open>undefined\<close> is false in JavaScript, whichever way it points.
\<close>

fun js_gt :: "nat option \<Rightarrow> nat \<Rightarrow> bool" where
  "js_gt None n = False"
| "js_gt (Some v) n = (v > n)"

fun js_lt :: "nat option \<Rightarrow> nat \<Rightarrow> bool" where
  "js_lt None n = False"
| "js_lt (Some v) n = (v < n)"

text \<open>
  \<open>(png.width * y + x) << 2\<close>: the shift works on the 32-bit two's complement value of
  its left operand and yields a signed 32-bit result.
\<close>

definition pixel_idx :: "nat \<Rightarrow> nat \<Rightarrow> nat \<Rightarrow> int" where
  "pixel_idx w xv yv = sint (push_bit 2 (word_of_nat (w * yv + xv) :: 32 word))"

definition isDiffPixel :: "png \<Rightarrow> nat \<Rightarrow> nat \<Rightarrow> bool" where
  "isDiffPixel p xv yv =
     (let idx = pixel_idx (png_width p) xv yv;
          r = data_at (png_data p) idx;
          g = data_at (png_data p) (idx + 1);
          b = data_at (png_data p) (idx + 2);
          a = data_at (png_data p) (idx + 3)
      in js_gt a 0 \<and>
         ((js_gt r 240 \<and> js_lt g 50 \<and> js_gt b 240) \<or>
          (js_gt r 200 \<and> js_lt g 100 \<and> js_gt b 150) \<or>
          (js_gt r 200 \<and> js_lt g 150 \<and> js_gt b 200)))"

text \<open>The two nested loops: rows outermost, columns inside, matches pushed in that order.\<close>

definition scanRow :: "png \<Rightarrow> nat \<Rightarrow> pixel list" where
  "scanRow p yv =
     concat (map (\<lambda>xv. if isDiffPixel p xv yv then [\<lparr>px = int xv, py = int yv\<rparr>] else [])
                 [0..<png_width p])"

definition diffPixels :: "png \<Rightarrow> pixel list" where
  "diffPixels p = concat (map (scanRow p) [0..<png_height p])"

section \<open>\<open>findBoundingRectangles\<close> (lines 268--339)\<close>

text \<open>
  \<open>Math.min(...xs)\<close> and \<open>Math.max(...xs)\<close>. Both are only ever called on a non-empty
  list in this file (the pixel list after the emptiness test, the band pixels after the
  test for more than 50 of them), so the equation for the empty list, where JavaScript
  returns an infinity, is left out. The limit that an engine puts on the number of
  arguments of one call is not part of the model.
\<close>

fun math_min :: "int list \<Rightarrow> int" where
  "math_min (v # vs) = fold min vs v"

fun math_max :: "int list \<Rightarrow> int" where
  "math_max (v # vs) = fold max vs v"

text \<open>Lines 276--292: the bounding rectangle of all pixels.\<close>

definition overallBox :: "pixel list \<Rightarrow> DiffRegion" where
  "overallBox pixels =
     (let allX = map px pixels;
          allY = map py pixels;
          minX = math_min allX;
          maxX = math_max allX;
          minY = math_min allY;
          maxY = math_max allY
      in \<lparr>rx = minX, ry = minY, rwidth = maxX - minX + 1, rheight = maxY - minY + 1\<rparr>)"

text \<open>
  Lines 295--299: \<open>yGroups\<close> is a \<open>Map\<close>, which iterates in the order in which its keys
  were first inserted; an association list keeps that order. \<open>set\<close> overwrites the
  value of a key in place and appends a new key at the end.
\<close>

fun map_get :: "(int \<times> nat) list \<Rightarrow> int \<Rightarrow> nat option" where
  "map_get [] k = None"
| "map_get ((k', v) # m) k = (if k' = k then Some v else map_get m k)"

fun map_set :: "(int \<times> nat) list \<Rightarrow> int \<Rightarrow> nat \<Rightarrow> (int \<times> nat) list" where
  "map_set [] k v = [(k, v)]"
| "map_set ((k', v') # m) k v = (if k' = k then (k, v) # m else (k', v') # map_set m k v)"

text \<open>\<open>Math.floor(p.y / 10) * 10\<close>; \<open>div\<close> on \<open>int\<close> rounds towards minus infinity.\<close>

definition yBandOf :: "pixel \<Rightarrow> int" where
  "yBandOf p = (py p div 10) * 10"

text \<open>\<open>yGroups.get(yBand) || 0\<close>: a missing key and a zero count both give 0.\<close>

definition countStep :: "pixel \<Rightarrow> (int \<times> nat) list \<Rightarrow> (int \<times> nat) list" where
  "countStep p m =
     map_set m (yBandOf p) ((case map_get m (yBandOf p) of None \<Rightarrow> 0 | Some c \<Rightarrow> c) + 1)"

definition yGroups :: "pixel list \<Rightarrow> (int \<times> nat) list" where
  "yGroups pixels = fold countStep pixels []"

text \<open>Line 305: the pixels within 15 rows of the band's first row.\<close>

definition bandPixels :: "pixel list \<Rightarrow> int \<Rightarrow> pixel list" where
  "bandPixels pixels yBand = filter (\<lambda>p. \<bar>py p - yBand\<bar> < 15) pixels"

text \<open>Lines 308--318: the rectangle pushed for a band.\<close>

definition bandRegion :: "pixel list \<Rightarrow> int \<Rightarrow> int \<Rightarrow> DiffRegion" where
  "bandRegion bp imageWidth imageHeight =
     (let bandMinX = math_min (map px bp);
          bandMaxX = math_max (map px bp);
          bandMinY = math_min (map py bp);
          bandMaxY = math_max (map py bp)
      in \<lparr>rx = max 0 (bandMinX - 5),
          ry = max 0 (bandMinY - 5),
          rwidth = min imageWidth (bandMaxX - bandMinX + 11),
          rheight = min imageHeight (bandMaxY - bandMinY + 11)\<rparr>)"

text \<open>
  Line 303, \<open>count > pixels.length * 0.1\<close>, compares doubles. For every length \<open>n\<close> an
  array can have (below 2 to the power 32) the product differs from the exact \<open>n / 10\<close> by
  less than a millionth, and it is not below \<open>n / 10\<close> when that is an integer (the double
  nearest to 0.1 lies above 0.1, and rounding is monotone). An integer count is therefore
  greater than the product exactly when \<open>10 * count > n\<close>.

  Lines 302--321: the loop over the entries of \<open>yGroups\<close>; the rectangles it pushes, in
  order.
\<close>

fun bandLoop :: "pixel list \<Rightarrow> int \<Rightarrow> int \<Rightarrow> (int \<times> nat) list \<Rightarrow> DiffRegion list" where
  "bandLoop pixels imageWidth imageHeight [] = []"
| "bandLoop pixels imageWidth imageHeight ((yBand, count) # rest) =
     (if 10 * count > length pixels then
        (let bp = bandPixels pixels yBand
         in if length bp > 50 then [bandRegion bp imageWidth imageHeight] else [])
      else [])
     @ bandLoop pixels imageWidth imageHeight rest"

text \<open>The array \<open>regions\<close> when the loop is over (line 322).\<close>

definition candidates :: "pixel list \<Rightarrow> int \<Rightarrow> int \<Rightarrow> DiffRegion list" where
  "candidates pixels imageWidth imageHeight =
     overallBox pixels # bandLoop pixels imageWidth imageHeight (yGroups pixels)"

text \<open>Line 325.\<close>

definition bigEnough :: "DiffRegion \<Rightarrow> bool" where
  "bigEnough r = (rwidth r * rheight r > 100)"

text \<open>Lines 331--334: \<open>other\<close> covers \<open>region\<close>.\<close>

definition covers :: "DiffRegion \<Rightarrow> DiffRegion \<Rightarrow> bool" where
  "covers other region =
     (rx other \<le> rx region \<and>
      ry other \<le> ry region \<and>
      rx other + rwidth other \<ge> rx region + rwidth region \<and>
      ry other + rheight other \<ge> ry region + rheight region)"

text \<open>
  \<open>Array.prototype.some\<close> and \<open>Array.prototype.filter\<close> with the index passed to the
  callback; the first argument is the index of the head of the list.
\<close>

fun someFrom :: "nat \<Rightarrow> (DiffRegion \<Rightarrow> nat \<Rightarrow> bool) \<Rightarrow> DiffRegion list \<Rightarrow> bool" where
  "someFrom i P [] = False"
| "someFrom i P (r # rs) = (P r i \<or> someFrom (Suc i) P rs)"

fun filterFrom :: "nat \<Rightarrow> (DiffRegion \<Rightarrow> nat \<Rightarrow> bool) \<Rightarrow> DiffRegion list \<Rightarrow> DiffRegion list" where
  "filterFrom i P [] = []"
| "filterFrom i P (r # rs) =
     (if P r i then r # filterFrom (Suc i) P rs else filterFrom (Suc i) P rs)"

text \<open>
  Lines 326--336: the callback of the second \<open>filter\<close>. Its third parameter \<open>arr\<close> is the
  array that \<open>filter\<close> was called on, that is the result of the area filter.
\<close>

definition notContained :: "DiffRegion list \<Rightarrow> DiffRegion \<Rightarrow> nat \<Rightarrow> bool" where
  "notContained arr region index =
     (\<not> someFrom 0 (\<lambda>other otherIndex. otherIndex \<noteq> index \<and> covers other region) arr)"

definition uniqueRegions :: "DiffRegion list \<Rightarrow> DiffRegion list" where
  "uniqueRegions regions =
     (let arr = filter bigEnough regions in filterFrom 0 (notContained arr) arr)"

definition findBoundingRectangles :: "pixel list \<Rightarrow> int \<Rightarrow> int \<Rightarrow> DiffRegion list" where
  "findBoundingRectangles pixels imageWidth imageHeight =
     (if length pixels = 0 then []
      else take 5 (uniqueRegions (candidates pixels imageWidth imageHeight)))"

text \<open>
  Lines 224--230 and 260 of \<open>analyzeDiffImage\<close>: the \<open>regions\<close> field of its result for a
  decoded image (the preview file it may write does not change the regions).
\<close>

definition analyzeDiffImage :: "png \<Rightarrow> DiffRegion list" where
  "analyzeDiffImage p =
     (let dp = diffPixels p
      in if length dp = 0 then []
         else findBoundingRectangles dp (int (png_width p)) (int (png_height p)))"

section \<open>Sample inputs\<close>

text \<open>
  Pixel lists in the order in which the scan of \<open>analyzeDiffImage\<close> produces them: one
  image row from column \<open>a\<close> up to column \<open>b - 1\<close>, and a filled block of rows.
\<close>

definition rowPixels :: "int \<Rightarrow> nat \<Rightarrow> nat \<Rightarrow> pixel list" where
  "rowPixels yv a b = map (\<lambda>n. \<lparr>px = int n, py = yv\<rparr>) [a..<b]"

definition blockPixels :: "nat \<Rightarrow> nat \<Rightarrow> nat \<Rightarrow> nat \<Rightarrow> pixel list" where
  "blockPixels x0 x1 y0 y1 = concat (map (\<lambda>yv. rowPixels (int yv) x0 x1) [y0..<y1])"

text \<open>
  Two rows of 51 diff pixels, at \<open>y = 5\<close> and \<open>y = 95\<close> (for a 100 by 100 image).
\<close>

definition twoRows :: "pixel list" where
  "twoRows = rowPixels 5 0 51 @ rowPixels 95 0 51"

text \<open>
  Every pixel of an image 11 wide and 10 high.
\<close>

definition fullImage :: "pixel list" where
  "fullImage = blockPixels 0 11 0 10"

text \<open>
  Two rows of 12 diff pixels, at \<open>y = 20\<close> and \<open>y = 31\<close>: 24 pixels whose bounding box is
  12 by 12.
\<close>

definition twoShortRows :: "pixel list" where
  "twoShortRows = rowPixels 20 20 32 @ rowPixels 31 20 32"

text \<open>
  Decoded images 2 wide and 1 high: one all black, and two whose second pixel has a
  diff colour (pure magenta in one, a pink accepted by the third colour test in the
  other).
\<close>

definition blackImage :: png where
  "blackImage = \<lparr>png_width = 2, png_height = 1, png_data = [0, 0, 0, 255, 0, 0, 0, 255]\<rparr>"



section \<open>Auxiliary facts\<close>

subsection \<open>Minimum and maximum\<close>

lemma math_min_Min: "vs \<noteq> [] \<Longrightarrow> math_min vs = Min (set vs)"
  by (cases vs) (simp_all add: Min.set_eq_fold [symmetric])

lemma math_max_Max: "vs \<noteq> [] \<Longrightarrow> math_max vs = Max (set vs)"
  by (cases vs) (simp_all add: Max.set_eq_fold [symmetric])



subsection \<open>\<open>some\<close> and \<open>filter\<close> with indices\<close>

lemma someFrom_iff: "someFrom i P rs \<longleftrightarrow> (\<exists>k<length rs. P (rs ! k) (i + k))"
proof (induction rs arbitrary: i)
  case Nil
  show ?case by simp
next
  case (Cons r rs)
  show ?case
  proof
    assume "someFrom i P (r # rs)"
    then consider "P r i" | "someFrom (Suc i) P rs" by auto
    then show "\<exists>k<length (r # rs). P ((r # rs) ! k) (i + k)"
    proof cases
      case 1
      then have "0 < length (r # rs) \<and> P ((r # rs) ! 0) (i + 0)" by simp
      then show ?thesis by blast
    next
      case 2
      then obtain k where "k < length rs" "P (rs ! k) (Suc i + k)"
        using Cons.IH by blast
      then have "Suc k < length (r # rs) \<and> P ((r # rs) ! Suc k) (i + Suc k)" by simp
      then show ?thesis by blast
    qed
  next
    assume "\<exists>k<length (r # rs). P ((r # rs) ! k) (i + k)"
    then obtain k where k: "k < length (r # rs)" "P ((r # rs) ! k) (i + k)" by blast
    show "someFrom i P (r # rs)"
    proof (cases k)
      case 0
      with k show ?thesis by simp
    next
      case (Suc m)
      with k have "m < length rs" "P (rs ! m) (Suc i + m)" by simp_all
      then have "someFrom (Suc i) P rs" using Cons.IH by blast
      then show ?thesis by simp
    qed
  qed
qed

lemma set_filterFrom:
  "set (filterFrom i P rs) = {rs ! k | k. k < length rs \<and> P (rs ! k) (i + k)}"
proof (induction rs arbitrary: i)
  case Nil
  show ?case by simp
next
  case (Cons r rs)
  have split: "{(r # rs) ! k | k. k < length (r # rs) \<and> P ((r # rs) ! k) (i + k)}
      = (if P r i then {r} else {}) \<union> {rs ! k | k. k < length rs \<and> P (rs ! k) (Suc i + k)}"
    (is "?L = ?R")
  proof (rule set_eqI)
    fix a
    show "a \<in> ?L \<longleftrightarrow> a \<in> ?R"
    proof
      assume "a \<in> ?L"
      then obtain k where k: "a = (r # rs) ! k" "k < length (r # rs)" "P ((r # rs) ! k) (i + k)"
        by blast
      show "a \<in> ?R"
      proof (cases k)
        case 0
        with k show ?thesis by simp
      next
        case (Suc m)
        with k have "a = rs ! m \<and> m < length rs \<and> P (rs ! m) (Suc i + m)" by simp
        then show ?thesis by blast
      qed
    next
      assume "a \<in> ?R"
      then consider "P r i" "a = r"
        | m where "a = rs ! m" "m < length rs" "P (rs ! m) (Suc i + m)"
        by (auto split: if_splits)
      then show "a \<in> ?L"
      proof cases
        case 1
        then have "a = (r # rs) ! 0 \<and> 0 < length (r # rs) \<and> P ((r # rs) ! 0) (i + 0)" by simp
        then show ?thesis by blast
      next
        case 2
        then have "a = (r # rs) ! Suc m \<and> Suc m < length (r # rs)
            \<and> P ((r # rs) ! Suc m) (i + Suc m)" by simp
        then show ?thesis by blast
      qed
    qed
  qed
  show ?case unfolding split by (simp add: Cons.IH)
qed


lemma filterFrom_nth:
  assumes "a < length (filterFrom i P rs)"
  shows "\<exists>k<length rs. filterFrom i P rs ! a = rs ! k \<and> P (rs ! k) (i + k)"
proof -
  from assms have "filterFrom i P rs ! a \<in> set (filterFrom i P rs)" by (rule nth_mem)
  then show ?thesis unfolding set_filterFrom by blast
qed

lemma filterFrom_nth_pair:
  "a < b \<Longrightarrow> b < length (filterFrom i P rs) \<Longrightarrow>
     \<exists>k l. k < l \<and> l < length rs \<and>
       filterFrom i P rs ! a = rs ! k \<and> filterFrom i P rs ! b = rs ! l \<and>
       P (rs ! k) (i + k) \<and> P (rs ! l) (i + l)"
proof (induction rs arbitrary: i a b)
  case Nil
  then show ?case by simp
next
  case (Cons r rs)
  let ?F = "filterFrom (Suc i) P rs"
  show ?case
  proof (cases "P r i")
    case False
    with Cons.prems have "a < b" "b < length ?F" by simp_all
    from Cons.IH [OF this] obtain k l where
      kl: "k < l" "l < length rs" "?F ! a = rs ! k" "?F ! b = rs ! l"
          "P (rs ! k) (Suc i + k)" "P (rs ! l) (Suc i + l)" by blast
    with False have "Suc k < Suc l \<and> Suc l < length (r # rs) \<and>
        filterFrom i P (r # rs) ! a = (r # rs) ! Suc k \<and>
        filterFrom i P (r # rs) ! b = (r # rs) ! Suc l \<and>
        P ((r # rs) ! Suc k) (i + Suc k) \<and> P ((r # rs) ! Suc l) (i + Suc l)" by simp
    then show ?thesis by blast
  next
    case True
    then have F: "filterFrom i P (r # rs) = r # ?F" by simp
    from Cons.prems obtain b' where b': "b = Suc b'" by (cases b) auto
    with Cons.prems F have b'len: "b' < length ?F" by simp
    show ?thesis
    proof (cases a)
      case 0
      from filterFrom_nth [OF b'len] obtain l where
        l: "l < length rs" "?F ! b' = rs ! l" "P (rs ! l) (Suc i + l)" by blast
      with True 0 b' F have "0 < Suc l \<and> Suc l < length (r # rs) \<and>
        filterFrom i P (r # rs) ! a = (r # rs) ! 0 \<and>
        filterFrom i P (r # rs) ! b = (r # rs) ! Suc l \<and>
        P ((r # rs) ! 0) (i + 0) \<and> P ((r # rs) ! Suc l) (i + Suc l)" by simp
      then show ?thesis by blast
    next
      case (Suc a')
      with Cons.prems b' have "a' < b'" by simp
      from Cons.IH [OF this b'len] obtain k l where
        kl: "k < l" "l < length rs" "?F ! a' = rs ! k" "?F ! b' = rs ! l"
            "P (rs ! k) (Suc i + k)" "P (rs ! l) (Suc i + l)" by blast
      with Suc b' F have "Suc k < Suc l \<and> Suc l < length (r # rs) \<and>
        filterFrom i P (r # rs) ! a = (r # rs) ! Suc k \<and>
        filterFrom i P (r # rs) ! b = (r # rs) ! Suc l \<and>
        P ((r # rs) ! Suc k) (i + Suc k) \<and> P ((r # rs) ! Suc l) (i + Suc l)" by simp
      then show ?thesis by blast
    qed
  qed
qed

subsection \<open>The two filters\<close>

lemma covers_refl: "covers r r"
  by (simp add: covers_def)

lemma notContained_iff:
  "notContained arr region index \<longleftrightarrow>
     (\<forall>k<length arr. k \<noteq> index \<longrightarrow> \<not> covers (arr ! k) region)"
  unfolding notContained_def someFrom_iff by auto

lemma in_uniqueRegions_iff:
  "r \<in> set (uniqueRegions regions) \<longleftrightarrow>
     (\<exists>i<length (filter bigEnough regions). filter bigEnough regions ! i = r \<and>
        notContained (filter bigEnough regions) r i)"
proof -
  have "set (uniqueRegions regions) =
      {filter bigEnough regions ! k | k. k < length (filter bigEnough regions) \<and>
         notContained (filter bigEnough regions) (filter bigEnough regions ! k) (0 + k)}"
    unfolding uniqueRegions_def Let_def by (rule set_filterFrom)
  then show ?thesis by fastforce
qed




lemma uniqueRegions_pair:
  assumes "a < b" "b < length (uniqueRegions regions)"
  shows "\<not> covers (uniqueRegions regions ! b) (uniqueRegions regions ! a) \<and>
         \<not> covers (uniqueRegions regions ! a) (uniqueRegions regions ! b)"
proof -
  let ?arr = "filter bigEnough regions"
  have U: "uniqueRegions regions = filterFrom 0 (notContained ?arr) ?arr"
    by (simp add: uniqueRegions_def Let_def)
  from assms obtain k l where
    kl: "k < l" "l < length ?arr"
        "uniqueRegions regions ! a = ?arr ! k" "uniqueRegions regions ! b = ?arr ! l"
        "notContained ?arr (?arr ! k) (0 + k)" "notContained ?arr (?arr ! l) (0 + l)"
    unfolding U using filterFrom_nth_pair [of a b 0 "notContained ?arr" ?arr] by blast
  from kl(1,2,5) have "\<not> covers (?arr ! l) (?arr ! k)"
    by (simp add: notContained_iff)
  moreover from kl(1,2,6) have "\<not> covers (?arr ! k) (?arr ! l)"
    by (simp add: notContained_iff)
  ultimately show ?thesis using kl(3,4) by simp
qed

lemma uniqueRegions_no_cover:
  assumes "a < length (uniqueRegions regions)" "b < length (uniqueRegions regions)" "a \<noteq> b"
  shows "\<not> covers (uniqueRegions regions ! b) (uniqueRegions regions ! a)"
proof (cases "a < b")
  case True
  with assms uniqueRegions_pair [of a b regions] show ?thesis by simp
next
  case False
  with assms have "b < a" by simp
  with assms uniqueRegions_pair [of b a regions] show ?thesis by simp
qed

lemma duplicate_removed:
  assumes "i < length (filter bigEnough regions)" "j < length (filter bigEnough regions)"
    and "i \<noteq> j" and "filter bigEnough regions ! i = filter bigEnough regions ! j"
  shows "filter bigEnough regions ! i \<notin> set (uniqueRegions regions)"
proof
  let ?arr = "filter bigEnough regions"
  assume "?arr ! i \<in> set (uniqueRegions regions)"
  then obtain k where k: "k < length ?arr" "?arr ! k = ?arr ! i"
      "notContained ?arr (?arr ! i) k"
    unfolding in_uniqueRegions_iff by blast
  show False
  proof (cases "k = i")
    case True
    with k(3) assms(2,3) have "\<not> covers (?arr ! j) (?arr ! i)"
      by (simp add: notContained_iff)
    with assms(4) show False by (simp add: covers_refl)
  next
    case False
    with k(3) assms(1) have "\<not> covers (?arr ! i) (?arr ! i)"
      by (simp add: notContained_iff)
    then show False by (simp add: covers_refl)
  qed
qed



lemma uniqueRegions_single:
  "uniqueRegions [b] = (if bigEnough b then [b] else [])"
  by (simp add: uniqueRegions_def Let_def notContained_def)


subsection \<open>Bands\<close>







lemma bandLoop_few_pixels:
  "length pixels \<le> 50 \<Longrightarrow> bandLoop pixels imageWidth imageHeight groups = []"
proof (induction groups)
  case Nil
  show ?case by simp
next
  case (Cons g groups)
  obtain yBand n where g: "g = (yBand, n)" by (cases g)
  have "length (bandPixels pixels yBand) \<le> length pixels"
    by (simp add: bandPixels_def)
  with Cons g show ?case by (simp add: Let_def)
qed


lemma overallBox_tight:
  assumes "pixels \<noteq> []"
  shows "overallBox pixels =
     \<lparr>rx = Min (px ` set pixels), ry = Min (py ` set pixels),
      rwidth = Max (px ` set pixels) - Min (px ` set pixels) + 1,
      rheight = Max (py ` set pixels) - Min (py ` set pixels) + 1\<rparr>"
  using assms by (simp add: overallBox_def Let_def math_min_Min math_max_Max)

subsection \<open>The scan\<close>

lemma scanRow_mem:
  "p \<in> set (scanRow img yv) \<Longrightarrow>
     py p = int yv \<and> 0 \<le> px p \<and> px p < int (png_width img)"
  by (auto simp: scanRow_def split: if_splits)

lemma diffPixels_in_image:
  assumes "p \<in> set (diffPixels img)"
  shows "0 \<le> px p \<and> px p < int (png_width img) \<and> 0 \<le> py p \<and> py p < int (png_height img)"
proof -
  from assms obtain yv where yv: "yv < png_height img" "p \<in> set (scanRow img yv)"
    by (auto simp: diffPixels_def)
  from scanRow_mem [OF yv(2)] yv(1) show ?thesis by simp
qed



lemma blackImage_pixels: "diffPixels blackImage = []"
  by code_simp

section \<open>Properties of the extractor\<close>

text \<open>
  C1 requires every returned region to lie within the image: \<open>x + width\<close> at most the
  image width and \<open>y + height\<close> at most the image height. The band rectangle clamps its
  left edge at 0 and its width at the image width, each on its own, so their sum can
  pass the right edge. For a 100 by 100 image whose diff pixels are \<open>(10, 50)\<close> up to
  \<open>(99, 50)\<close> the extractor returns the single region \<open>(5, 45, 100, 11)\<close>, which ends at
  column 105.
\<close>

theorem band_region_exceeds_image_width:
  "findBoundingRectangles (rowPixels 50 10 100) 100 100 =
     [\<lparr>rx = 5, ry = 45, rwidth = 100, rheight = 11\<rparr>] \<and>
   rx (hd (findBoundingRectangles (rowPixels 50 10 100) 100 100))
     + rwidth (hd (findBoundingRectangles (rowPixels 50 10 100) 100 100)) = 105"
proof -
  have "findBoundingRectangles (rowPixels 50 10 100) 100 100 =
     [\<lparr>rx = 5, ry = 45, rwidth = 100, rheight = 11\<rparr>]"
    by code_simp
  then show ?thesis by simp
qed







text \<open>
  C4 as stated fails: for the filled 11 by 11 cluster with corners \<open>(20, 20)\<close> and
  \<open>(30, 30)\<close> in a 100 by 100 image the tight bounding box is \<open>(20, 20, 11, 11)\<close>, but the
  only region returned is the padded band rectangle \<open>(15, 15, 21, 21)\<close>, which covers the box.
\<close>

theorem cluster_counterexample:
  "overallBox (blockPixels 20 31 20 31) = \<lparr>rx = 20, ry = 20, rwidth = 11, rheight = 11\<rparr> \<and>
   findBoundingRectangles (blockPixels 20 31 20 31) 100 100 =
     [\<lparr>rx = 15, ry = 15, rwidth = 21, rheight = 21\<rparr>]"
  by code_simp

text \<open>
  C4, amended: for a non-empty cluster of at most 50 diff pixels no band rectangle is
  built, and the output is exactly the tight bounding box
  \<open>(min x, min y, max x - min x + 1, max y - min y + 1)\<close> when its area exceeds 100, and
  empty otherwise.
\<close>

theorem few_pixels_output:
  assumes "pixels \<noteq> []" and "length pixels \<le> 50"
  shows "findBoundingRectangles pixels imageWidth imageHeight =
           (if bigEnough (overallBox pixels) then [overallBox pixels] else []) \<and>
         overallBox pixels =
           \<lparr>rx = Min (px ` set pixels), ry = Min (py ` set pixels),
            rwidth = Max (px ` set pixels) - Min (px ` set pixels) + 1,
            rheight = Max (py ` set pixels) - Min (py ` set pixels) + 1\<rparr>"
  using assms
  by (simp add: findBoundingRectangles_def candidates_def bandLoop_few_pixels
      uniqueRegions_single overallBox_tight [symmetric])

theorem few_pixels_output_witness:
  "twoShortRows \<noteq> [] \<and> length twoShortRows \<le> 50 \<and>
   findBoundingRectangles twoShortRows 100 100 = [\<lparr>rx = 20, ry = 20, rwidth = 12, rheight = 12\<rparr>]"
proof -
  have h: "twoShortRows \<noteq> []" "length twoShortRows \<le> 50" by code_simp+
  have b: "overallBox twoShortRows = \<lparr>rx = 20, ry = 20, rwidth = 12, rheight = 12\<rparr>"
    by code_simp
  from few_pixels_output [OF h, of 100 100] h b show ?thesis
    by (simp add: bigEnough_def)
qed


text \<open>
  C6: with no diff pixels the extractor returns the empty list: \<open>findBoundingRectangles\<close>
  on the empty pixel list, and \<open>analyzeDiffImage\<close> on an image whose scan finds no diff
  pixel. Both are total functions here, with no failing branch on this path.
\<close>

theorem no_diff_pixels_no_regions:
  "findBoundingRectangles [] imageWidth imageHeight = [] \<and>
   (diffPixels p = [] \<longrightarrow> analyzeDiffImage p = [])"
  by (simp add: findBoundingRectangles_def analyzeDiffImage_def)

theorem no_diff_pixels_no_regions_witness:
  "diffPixels blackImage = [] \<and> analyzeDiffImage blackImage = []"
  using no_diff_pixels_no_regions [of 2 1 blackImage] blackImage_pixels by simp

text \<open>
  C7: no region of the output is covered by another region of the same output: for
  any two distinct positions \<open>a\<close> and \<open>b\<close> of the returned list, the region at \<open>b\<close> does not
  cover the region at \<open>a\<close>.
\<close>

theorem output_no_region_inside_another:
  assumes "a < length (findBoundingRectangles pixels W H)"
    and "b < length (findBoundingRectangles pixels W H)"
    and "a \<noteq> b"
  shows "\<not> covers (findBoundingRectangles pixels W H ! b) (findBoundingRectangles pixels W H ! a)"
proof -
  let ?U = "uniqueRegions (candidates pixels W H)"
  from assms(1) have ne: "length pixels \<noteq> 0"
    by (auto simp: findBoundingRectangles_def)
  then have out: "findBoundingRectangles pixels W H = take 5 ?U"
    by (simp add: findBoundingRectangles_def)
  from assms(1,2) have len: "a < length ?U" "b < length ?U" and five: "a < 5" "b < 5"
    unfolding out by simp_all
  from uniqueRegions_no_cover [OF len assms(3)] five show ?thesis
    unfolding out by simp
qed

theorem output_no_region_inside_another_witness:
  "length (findBoundingRectangles twoRows 100 100) = 3 \<and>
   \<not> covers (findBoundingRectangles twoRows 100 100 ! 1) (findBoundingRectangles twoRows 100 100 ! 0)"
proof -
  have len: "length (findBoundingRectangles twoRows 100 100) = 3" by code_simp
  then have h: "0 < length (findBoundingRectangles twoRows 100 100)"
    "1 < length (findBoundingRectangles twoRows 100 100)" by simp_all
  from output_no_region_inside_another [OF h] len show ?thesis by simp
qed

text \<open>
  C8: whatever the pixel list and the image dimensions, and however many bands
  qualify, the list returned by \<open>findBoundingRectangles\<close> has at most 5 elements.
\<close>

theorem findBoundingRectangles_length_le_5:
  "length (findBoundingRectangles pixels imageWidth imageHeight) \<le> 5"
  by (simp add: findBoundingRectangles_def)



text \<open>
  C10: the containment test is not strict (every region covers itself) and compares a
  candidate with every other position of the area-filtered list, so a region that
  stands at two positions of that list is removed at both. For the image 11 wide and 10
  high in which every pixel is a diff pixel the band rectangle equals the overall
  bounding box, and the extractor returns the empty list.
\<close>

theorem identical_candidates_both_removed:
  "covers r r \<and>
   (\<forall>i j. i < length (filter bigEnough regions) \<and> j < length (filter bigEnough regions) \<and>
      i \<noteq> j \<and> filter bigEnough regions ! i = filter bigEnough regions ! j
      \<longrightarrow> filter bigEnough regions ! i \<notin> set (uniqueRegions regions)) \<and>
   candidates fullImage 11 10 =
     [\<lparr>rx = 0, ry = 0, rwidth = 11, rheight = 10\<rparr>, \<lparr>rx = 0, ry = 0, rwidth = 11, rheight = 10\<rparr>] \<and>
   findBoundingRectangles fullImage 11 10 = []"
proof -
  have c: "candidates fullImage 11 10 =
     [\<lparr>rx = 0, ry = 0, rwidth = 11, rheight = 10\<rparr>, \<lparr>rx = 0, ry = 0, rwidth = 11, rheight = 10\<rparr>]"
    by code_simp
  have f: "findBoundingRectangles fullImage 11 10 = []" by code_simp
  show ?thesis using duplicate_removed covers_refl c f by blast
qed

theorem identical_candidates_both_removed_witness:
  "filter bigEnough (candidates fullImage 11 10) ! 0 = filter bigEnough (candidates fullImage 11 10) ! 1 \<and>
   \<lparr>rx = 0, ry = 0, rwidth = 11, rheight = 10\<rparr> \<notin> set (uniqueRegions (candidates fullImage 11 10))"
proof -
  let ?b = "\<lparr>rx = 0, ry = 0, rwidth = 11, rheight = 10\<rparr>"
  have arr: "filter bigEnough (candidates fullImage 11 10) = [?b, ?b]"
    using identical_candidates_both_removed [of ?b "[]"] by (simp add: bigEnough_def)
  have "0 < length (filter bigEnough (candidates fullImage 11 10)) \<and>
        1 < length (filter bigEnough (candidates fullImage 11 10)) \<and> (0::nat) \<noteq> 1 \<and>
        filter bigEnough (candidates fullImage 11 10) ! 0 = filter bigEnough (candidates fullImage 11 10) ! 1"
    unfolding arr by simp
  with identical_candidates_both_removed [of ?b "candidates fullImage 11 10"]
  have "filter bigEnough (candidates fullImage 11 10) ! 0 \<notin> set (uniqueRegions (candidates fullImage 11 10))"
    by blast
  then show ?thesis unfolding arr by simp
qed

end
